theory Spec2Isabelle
  imports Main "HOL-Library.Word" "HOL-Library.Multiset"
begin

section \<open>Outcomes of a call\<close>

text \<open>
  The exceptions the two headers can raise: \<open>std::runtime_error\<close> with its message
  (thrown by \<open>push\<close> and \<open>emplace\<close> on a queue that is shut down), and the two
  standard-library errors a worker could meet when it invokes a task
  (\<open>std::future_error\<close> of a packaged task invoked twice, \<open>std::bad_function_call\<close>
  of an empty \<open>std::function\<close>).
\<close>

datatype error = Runtime_error string | Future_error | Bad_function_call

text \<open>The specification's \<open>ClosedError\<close> is the exception \<open>push\<close> throws.\<close>

definition ClosedError :: error where
  "ClosedError = Runtime_error ''push() called on shutdown queue''"

text \<open>
  A call made on a given state either returns a value, throws, or stays blocked on the
  condition variable (the state then does not satisfy what the caller waits for).
  Every operation is a function from the state to an outcome and the state it leaves.
\<close>

datatype 'r outcome = Returns 'r | Throws error | Blocks

section \<open>thread\_safe\_queue\<close>

text \<open>
  The two data members the mutex protects, \<open>queue_\<close> and \<open>shutdown_\<close> (a name cannot
  end in an underscore here, so the fields carry the prefix \<open>q_\<close> instead). Every member
  function holds the mutex for the whole of its access to them, so each call is one
  atomic step on this record.
\<close>

record 'a thread_safe_queue =
  q_queue :: "'a list"
  q_shutdown :: bool

definition new_queue :: "'a thread_safe_queue" where
  "new_queue = \<lparr>q_queue = [], q_shutdown = False\<rparr>"

subsection \<open>Lifecycle and capacity\<close>

definition shutdown :: "'a thread_safe_queue \<Rightarrow> unit outcome \<times> 'a thread_safe_queue" where
  "shutdown q = (Returns (), q\<lparr>q_shutdown := True\<rparr>)"

definition is_shutdown :: "'a thread_safe_queue \<Rightarrow> bool outcome \<times> 'a thread_safe_queue" where
  "is_shutdown q = (Returns (q_shutdown q), q)"

definition size_q :: "'a thread_safe_queue \<Rightarrow> nat outcome \<times> 'a thread_safe_queue" where
  "size_q q = (Returns (length (q_queue q)), q)"

definition empty_q :: "'a thread_safe_queue \<Rightarrow> bool outcome \<times> 'a thread_safe_queue" where
  "empty_q q = (Returns (q_queue q = []), q)"

subsection \<open>Producers\<close>

definition push :: "'a \<Rightarrow> 'a thread_safe_queue \<Rightarrow> unit outcome \<times> 'a thread_safe_queue" where
  "push v q =
     (if q_shutdown q then (Throws (Runtime_error ''push() called on shutdown queue''), q)
      else (Returns (), q\<lparr>q_queue := q_queue q @ [v]\<rparr>))"

definition emplace :: "'a \<Rightarrow> 'a thread_safe_queue \<Rightarrow> unit outcome \<times> 'a thread_safe_queue" where
  "emplace v q =
     (if q_shutdown q then (Throws (Runtime_error ''emplace() called on shutdown queue''), q)
      else (Returns (), q\<lparr>q_queue := q_queue q @ [v]\<rparr>))"

subsection \<open>Consumers\<close>

text \<open>The \<open>std::optional\<close> overloads.\<close>

definition try_pop :: "'a thread_safe_queue \<Rightarrow> 'a option outcome \<times> 'a thread_safe_queue" where
  "try_pop q =
     (if q_queue q = [] then (Returns None, q)
      else (Returns (Some (hd (q_queue q))), q\<lparr>q_queue := tl (q_queue q)\<rparr>))"

text \<open>
  \<open>cv_.wait(lock, pred)\<close> returns only in a state where \<open>pred\<close> holds; in any other
  state the caller is still parked.
\<close>

definition wait_and_pop :: "'a thread_safe_queue \<Rightarrow> 'a option outcome \<times> 'a thread_safe_queue" where
  "wait_and_pop q =
     (if \<not> (q_queue q \<noteq> [] \<or> q_shutdown q) then (Blocks, q)
      else if q_queue q = [] then (Returns None, q)
      else (Returns (Some (hd (q_queue q))), q\<lparr>q_queue := tl (q_queue q)\<rparr>))"

text \<open>
  \<open>cv_.wait_for(lock, timeout, pred)\<close> returns \<open>pred()\<close> as soon as it holds, or once
  the timeout has elapsed. The clock is abstract: \<open>elapsed\<close> is the time since the call,
  \<open>q\<close> the state the caller sees at that time.
\<close>

definition wait_for ::
  "nat \<Rightarrow> nat \<Rightarrow> 'a thread_safe_queue \<Rightarrow> 'a option outcome \<times> 'a thread_safe_queue" where
  "wait_for timeout elapsed q =
     (if \<not> (q_queue q \<noteq> [] \<or> q_shutdown q) \<and> elapsed < timeout then (Blocks, q)
      else
        let success = (q_queue q \<noteq> [] \<or> q_shutdown q) in
        if \<not> success \<or> q_queue q = [] then (Returns None, q)
        else (Returns (Some (hd (q_queue q))), q\<lparr>q_queue := tl (q_queue q)\<rparr>))"

text \<open>
  The overloads that return \<open>bool\<close> and assign the item to \<open>out\<close>; \<open>out\<close> keeps the
  caller's value when they return \<open>false\<close>.
\<close>

definition try_pop_out ::
  "'a \<Rightarrow> 'a thread_safe_queue \<Rightarrow> (bool \<times> 'a) outcome \<times> 'a thread_safe_queue" where
  "try_pop_out out q =
     (if q_queue q = [] then (Returns (False, out), q)
      else (Returns (True, hd (q_queue q)), q\<lparr>q_queue := tl (q_queue q)\<rparr>))"

definition wait_and_pop_out ::
  "'a \<Rightarrow> 'a thread_safe_queue \<Rightarrow> (bool \<times> 'a) outcome \<times> 'a thread_safe_queue" where
  "wait_and_pop_out out q =
     (if \<not> (q_queue q \<noteq> [] \<or> q_shutdown q) then (Blocks, q)
      else if q_queue q = [] then (Returns (False, out), q)
      else (Returns (True, hd (q_queue q)), q\<lparr>q_queue := tl (q_queue q)\<rparr>))"

definition wait_for_out ::
  "'a \<Rightarrow> nat \<Rightarrow> nat \<Rightarrow> 'a thread_safe_queue \<Rightarrow> (bool \<times> 'a) outcome \<times> 'a thread_safe_queue" where
  "wait_for_out out timeout elapsed q =
     (if \<not> (q_queue q \<noteq> [] \<or> q_shutdown q) \<and> elapsed < timeout then (Blocks, q)
      else
        let success = (q_queue q \<noteq> [] \<or> q_shutdown q) in
        if \<not> success \<or> q_queue q = [] then (Returns (False, out), q)
        else (Returns (True, hd (q_queue q)), q\<lparr>q_queue := tl (q_queue q)\<rparr>))"

subsection \<open>Sequences of calls\<close>

text \<open>
  Calls of any number of threads on one queue are serialised by the mutex, so a
  concurrent history is a list of calls, applied one after the other.
\<close>

datatype 'a queue_call =
    Push 'a | Emplace 'a | TryPop | WaitAndPop | WaitFor nat nat
  | TryPopOut 'a | WaitAndPopOut 'a | WaitForOut 'a nat nat
  | Shutdown | IsShutdown | Size | Empty

fun call_state :: "'a queue_call \<Rightarrow> 'a thread_safe_queue \<Rightarrow> 'a thread_safe_queue" where
  "call_state (Push v) q = snd (push v q)"
| "call_state (Emplace v) q = snd (emplace v q)"
| "call_state TryPop q = snd (try_pop q)"
| "call_state WaitAndPop q = snd (wait_and_pop q)"
| "call_state (WaitFor t e) q = snd (wait_for t e q)"
| "call_state (TryPopOut out) q = snd (try_pop_out out q)"
| "call_state (WaitAndPopOut out) q = snd (wait_and_pop_out out q)"
| "call_state (WaitForOut out t e) q = snd (wait_for_out out t e q)"
| "call_state Shutdown q = snd (shutdown q)"
| "call_state IsShutdown q = snd (is_shutdown q)"
| "call_state Size q = snd (size_q q)"
| "call_state Empty q = snd (empty_q q)"

fun run_calls :: "'a queue_call list \<Rightarrow> 'a thread_safe_queue \<Rightarrow> 'a thread_safe_queue" where
  "run_calls [] q = q"
| "run_calls (c # cs) q = run_calls cs (call_state c q)"

text \<open>Pushing a list of items, one call each; the first exception ends the sequence.\<close>

fun push_all :: "'a list \<Rightarrow> 'a thread_safe_queue \<Rightarrow> unit outcome \<times> 'a thread_safe_queue" where
  "push_all [] q = (Returns (), q)"
| "push_all (v # vs) q =
     (case push v q of
        (Returns u, q') \<Rightarrow> push_all vs q'
      | (Throws e, q') \<Rightarrow> (Throws e, q')
      | (Blocks, q') \<Rightarrow> (Blocks, q'))"

text \<open>A consumer that pops with a chosen overload at each turn, and what each pop gave.\<close>

datatype pop_kind = By_try_pop | By_wait_and_pop

fun pop_by :: "pop_kind \<Rightarrow> 'a thread_safe_queue \<Rightarrow> 'a option outcome \<times> 'a thread_safe_queue" where
  "pop_by By_try_pop q = try_pop q"
| "pop_by By_wait_and_pop q = wait_and_pop q"

fun pops :: "pop_kind list \<Rightarrow> 'a thread_safe_queue \<Rightarrow> 'a option outcome list \<times> 'a thread_safe_queue" where
  "pops [] q = ([], q)"
| "pops (k # ks) q =
     (let (r, q') = pop_by k q; (rs, q'') = pops ks q' in (r # rs, q''))"

section \<open>thread\_pool\<close>

subsection \<open>Tasks and their futures\<close>

text \<open>
  A callable given to \<open>submit\<close> (with its bound arguments), by what invoking it does:
  it returns a value, returns from a \<open>void\<close> function, or throws an exception of the
  user's. The callables modelled terminate and touch nothing of the pool.
\<close>

datatype ('e, 'r) callable = Return_value 'r | Return_void | Throw 'e

text \<open>
  The shared state of a \<open>std::packaged_task\<close> and its \<open>std::future\<close>. Invoking the
  packaged task runs the callable and stores its value, or the exception it threw.
\<close>

datatype ('e, 'r) shared_state = Pending | Ready_value 'r | Ready_void | Ready_exception 'e

fun run_callable :: "('e, 'r) callable \<Rightarrow> ('e, 'r) shared_state" where
  "run_callable (Return_value v) = Ready_value v"
| "run_callable Return_void = Ready_void"
| "run_callable (Throw e) = Ready_exception e"

text \<open>
  An item of \<open>task_queue_\<close>, a \<open>std::function<void()>\<close>: either empty (as the worker's
  local \<open>task\<close> is before a pop assigns it), or the closure \<open>[task]() { (*task)(); }\<close>
  that \<open>submit\<close> makes, which owns a packaged task: the index of its shared state among
  the shared states allocated so far, and the callable.
\<close>

datatype ('e, 'r) task = Empty_function | Packaged (fid: nat) (body: "('e, 'r) callable")

text \<open>
  Invoking an item. An empty \<open>std::function\<close> throws \<open>std::bad_function_call\<close>; a
  packaged task whose shared state is already satisfied throws \<open>std::future_error\<close>;
  otherwise the call returns normally, whatever the callable did.
\<close>

fun invoke ::
  "('e, 'r) task \<Rightarrow> ('e, 'r) shared_state list \<Rightarrow> unit outcome \<times> ('e, 'r) shared_state list" where
  "invoke Empty_function fs = (Throws Bad_function_call, fs)"
| "invoke (Packaged i f) fs =
     (if i < length fs \<and> fs ! i = Pending then (Returns (), fs[i := run_callable f])
      else (Throws Future_error, fs))"

subsection \<open>The pool and its worker threads\<close>

text \<open>
  Where a worker thread stands in \<open>worker_loop\<close>: at the call of \<open>wait_and_pop\<close>, inside
  \<open>task()\<close> with the item it popped, after the \<open>break\<close>, or dead of an exception that
  left the thread function (\<open>std::terminate\<close>).
\<close>

datatype ('e, 'r) worker = At_pop | Running "('e, 'r) task" | Exited | Terminated error

text \<open>
  The data members \<open>task_queue_\<close>, \<open>workers_\<close> and \<open>shutdown_\<close>, and with them the shared
  states of the packaged tasks submitted so far, which the futures handed out refer to.
\<close>

record ('e, 'r) thread_pool =
  task_queue :: "('e, 'r) task thread_safe_queue"
  workers :: "('e, 'r) worker list"
  p_shutdown :: bool
  futures :: "('e, 'r) shared_state list"

text \<open>
  The constructor. \<open>num_threads\<close> is a \<open>size_t\<close> (64 bits) and
  \<open>std::thread::hardware_concurrency()\<close> an \<open>unsigned int\<close> (32 bits), so the subtraction
  is done on 32 bits and wraps, and its result is widened. Thread creation is taken to
  succeed.
\<close>

definition new_thread_pool :: "64 word \<Rightarrow> 32 word \<Rightarrow> ('e, 'r) thread_pool" where
  "new_thread_pool num_threads hardware_concurrency =
     (let n =
        (if num_threads = 0 then
           (let num_threads' = ucast (hardware_concurrency - 1)
            in if num_threads' = 0 then 1 else num_threads')
         else num_threads)
      in \<lparr>task_queue = new_queue, workers = replicate (unat n) At_pop,
          p_shutdown = False, futures = []\<rparr>)"

definition thread_count :: "('e, 'r) thread_pool \<Rightarrow> nat" where
  "thread_count p = length (workers p)"

definition pool_is_shutdown :: "('e, 'r) thread_pool \<Rightarrow> bool" where
  "pool_is_shutdown p = p_shutdown p"

text \<open>
  \<open>submit\<close> allocates the packaged task with a fresh shared state, takes its future and
  pushes the closure. When \<open>push\<close> throws, unwinding destroys the task and the future, and
  the exception reaches the caller.
\<close>

definition submit ::
  "('e, 'r) callable \<Rightarrow> ('e, 'r) thread_pool \<Rightarrow> nat outcome \<times> ('e, 'r) thread_pool" where
  "submit f p =
     (let result = length (futures p) in
      case push (Packaged result f) (task_queue p) of
        (Returns u, q') \<Rightarrow> (Returns result, p\<lparr>task_queue := q', futures := futures p @ [Pending]\<rparr>)
      | (Throws e, q') \<Rightarrow> (Throws e, p\<lparr>task_queue := q'\<rparr>)
      | (Blocks, q') \<Rightarrow> (Blocks, p\<lparr>task_queue := q'\<rparr>))"

text \<open>
  One atomic step of worker \<open>i\<close> in \<open>worker_loop\<close>: the pop (under the queue's mutex), or
  the run of the item popped (outside it). A worker parked in \<open>wait_and_pop\<close>, one that
  has left the loop and an index that is no worker leave the pool as it is.
\<close>

definition worker_step :: "nat \<Rightarrow> ('e, 'r) thread_pool \<Rightarrow> ('e, 'r) thread_pool" where
  "worker_step i p =
     (if i < length (workers p) then
        (case workers p ! i of
           At_pop \<Rightarrow>
             (case wait_and_pop_out Empty_function (task_queue p) of
                (Returns (popped, task), q') \<Rightarrow>
                  if \<not> popped then p\<lparr>task_queue := q', workers := (workers p)[i := Exited]\<rparr>
                  else p\<lparr>task_queue := q', workers := (workers p)[i := Running task]\<rparr>
              | (Throws e, q') \<Rightarrow> p\<lparr>task_queue := q', workers := (workers p)[i := Terminated e]\<rparr>
              | (Blocks, q') \<Rightarrow> p)
         | Running task \<Rightarrow>
             (case invoke task (futures p) of
                (Returns u, fs) \<Rightarrow> p\<lparr>workers := (workers p)[i := At_pop], futures := fs\<rparr>
              | (Throws e, fs) \<Rightarrow> p\<lparr>workers := (workers p)[i := Terminated e], futures := fs\<rparr>
              | (Blocks, fs) \<Rightarrow> p)
         | Exited \<Rightarrow> p
         | Terminated e \<Rightarrow> p)
      else p)"

text \<open>
  A schedule is the order in which the workers take their steps; any interleaving of the
  worker threads is one.
\<close>

fun run :: "nat list \<Rightarrow> ('e, 'r) thread_pool \<Rightarrow> ('e, 'r) thread_pool" where
  "run [] p = p"
| "run (i # sched) p = run sched (worker_step i p)"

fun has_exited :: "('e, 'r) worker \<Rightarrow> bool" where
  "has_exited Exited = True"
| "has_exited w = False"

text \<open>
  \<open>shutdown\<close> is two steps for the other threads. The first is the exchange on the pool's
  flag, which tells the caller whether a shutdown had begun before. Nothing but
  \<open>shutdown\<close> and \<open>is_shutdown\<close> reads that flag: \<open>submit\<close> and the workers look at the
  queue only.
\<close>

definition shutdown_exchange ::
  "('e, 'r) thread_pool \<Rightarrow> bool \<times> ('e, 'r) thread_pool" where
  "shutdown_exchange p = (p_shutdown p, p\<lparr>p_shutdown := True\<rparr>)"

text \<open>
  The second is the rest of the call: the queue's shutdown, and the joins, which return
  once every worker thread has finished. \<open>sched\<close> is what the workers do while the caller
  is in the joins; the call is still blocked there if that leaves a worker unfinished.
\<close>

definition shutdown_queue_and_join ::
  "nat list \<Rightarrow> ('e, 'r) thread_pool \<Rightarrow> unit outcome \<times> ('e, 'r) thread_pool" where
  "shutdown_queue_and_join sched p =
     (let p2 = p\<lparr>task_queue := snd (shutdown (task_queue p))\<rparr>;
          p3 = run sched p2
      in if list_all has_exited (workers p3) then (Returns (), p3) else (Blocks, p3))"

text \<open>
  A call of \<open>shutdown\<close> with nothing of another caller between its two steps. A caller
  whose exchange finds the flag set returns at once, whatever the state of the queue.
\<close>

definition pool_shutdown ::
  "nat list \<Rightarrow> ('e, 'r) thread_pool \<Rightarrow> unit outcome \<times> ('e, 'r) thread_pool" where
  "pool_shutdown sched p =
     (case shutdown_exchange p of
        (was_shutdown, p1) \<Rightarrow>
          if was_shutdown then (Returns (), p1) else shutdown_queue_and_join sched p1)"

text \<open>The destructor calls \<open>shutdown()\<close>; the queue's own destructor then shuts it down again.\<close>

definition destroy ::
  "nat list \<Rightarrow> ('e, 'r) thread_pool \<Rightarrow> unit outcome \<times> ('e, 'r) thread_pool" where
  "destroy sched p =
     (case pool_shutdown sched p of
        (Returns u, p') \<Rightarrow> (Returns (), p'\<lparr>task_queue := snd (shutdown (task_queue p'))\<rparr>)
      | (Throws e, p') \<Rightarrow> (Throws e, p')
      | (Blocks, p') \<Rightarrow> (Blocks, p'))"

text \<open>
  \<open>wait_all\<close>. Its first loop submits \<open>workers_.size()\<close> no-op tasks and keeps their
  futures; an exception of \<open>submit\<close> ends the call. Its second loop waits on each future.
  \<open>sched\<close> is what the workers do while the caller waits; the call is still blocked if
  that leaves one of the futures not ready.
\<close>

fun submit_barriers ::
  "nat \<Rightarrow> ('e, 'r) thread_pool \<Rightarrow> nat list outcome \<times> ('e, 'r) thread_pool" where
  "submit_barriers 0 p = (Returns [], p)"
| "submit_barriers (Suc k) p =
     (case submit Return_void p of
        (Returns b, p') \<Rightarrow>
          (case submit_barriers k p' of
             (Returns barriers, p'') \<Rightarrow> (Returns (b # barriers), p'')
           | (Throws e, p'') \<Rightarrow> (Throws e, p'')
           | (Blocks, p'') \<Rightarrow> (Blocks, p''))
      | (Throws e, p') \<Rightarrow> (Throws e, p')
      | (Blocks, p') \<Rightarrow> (Blocks, p'))"

fun is_pending :: "('e, 'r) shared_state \<Rightarrow> bool" where
  "is_pending Pending = True"
| "is_pending s = False"

definition is_ready :: "('e, 'r) shared_state list \<Rightarrow> nat \<Rightarrow> bool" where
  "is_ready fs b = (b < length fs \<and> \<not> is_pending (fs ! b))"

definition wait_all ::
  "nat list \<Rightarrow> ('e, 'r) thread_pool \<Rightarrow> unit outcome \<times> ('e, 'r) thread_pool" where
  "wait_all sched p =
     (case submit_barriers (length (workers p)) p of
        (Returns barriers, p1) \<Rightarrow>
          let p2 = run sched p1
          in if list_all (is_ready (futures p2)) barriers then (Returns (), p2) else (Blocks, p2)
      | (Throws e, p1) \<Rightarrow> (Throws e, p1)
      | (Blocks, p1) \<Rightarrow> (Blocks, p1))"

subsection \<open>Histories of a pool\<close>

text \<open>
  What can happen to a pool, in any order and from any number of caller threads: a step
  of a worker; a \<open>submit\<close> (the barriers of \<open>wait_all\<close> are such calls; its waits, like the
  joins of \<open>shutdown\<close>, change nothing); the exchange of a \<open>shutdown\<close>; and the queue's
  shutdown that a \<open>shutdown\<close> goes on to. A history is a list of these.
\<close>

datatype ('e, 'r) pool_event =
    Worker_step nat | Submit_call "('e, 'r) callable" | Shutdown_exchange | Shutdown_queue

fun apply_event :: "('e, 'r) pool_event \<Rightarrow> ('e, 'r) thread_pool \<Rightarrow> ('e, 'r) thread_pool" where
  "apply_event (Worker_step i) p = worker_step i p"
| "apply_event (Submit_call f) p = snd (submit f p)"
| "apply_event Shutdown_exchange p = snd (shutdown_exchange p)"
| "apply_event Shutdown_queue p = p\<lparr>task_queue := snd (shutdown (task_queue p))\<rparr>"

fun run_events ::
  "('e, 'r) pool_event list \<Rightarrow> ('e, 'r) thread_pool \<Rightarrow> ('e, 'r) thread_pool" where
  "run_events [] p = p"
| "run_events (e # es) p = run_events es (apply_event e p)"

subsection \<open>The invariant of a pool\<close>

text \<open>
  The items a pool still owes a run: those in the queue and those its workers are
  inside of.
\<close>

fun held :: "('e, 'r) worker \<Rightarrow> ('e, 'r) task multiset" where
  "held (Running t) = {#t#}"
| "held w = {#}"

fun running_tasks :: "('e, 'r) worker list \<Rightarrow> ('e, 'r) task multiset" where
  "running_tasks [] = {#}"
| "running_tasks (w # ws) = held w + running_tasks ws"

definition pending_tasks :: "('e, 'r) thread_pool \<Rightarrow> ('e, 'r) task multiset" where
  "pending_tasks p = mset (q_queue (task_queue p)) + running_tasks (workers p)"

fun is_terminated :: "('e, 'r) worker \<Rightarrow> bool" where
  "is_terminated (Terminated e) = True"
| "is_terminated w = False"

text \<open>
  Each shared state that is still pending belongs to exactly one item owed, and the
  shared state of every item owed is pending.
\<close>

definition owed_ok :: "('e, 'r) thread_pool \<Rightarrow> bool" where
  "owed_ok p \<longleftrightarrow>
     (\<forall>k. count (image_mset fid (pending_tasks p)) k =
          (if k < length (futures p) \<and> futures p ! k = Pending then 1 else 0))"

text \<open>
  The future \<open>b\<close> of a callable \<open>f\<close>: pending as long as the pool owes the run of its
  item, and holding what \<open>f\<close> returned or threw from then on.
\<close>

definition task_tracked ::
  "('e, 'r) thread_pool \<Rightarrow> nat \<Rightarrow> ('e, 'r) callable \<Rightarrow> bool" where
  "task_tracked p b f \<longleftrightarrow>
     b < length (futures p)
     \<and> (if Packaged b f \<in># pending_tasks p then futures p ! b = Pending
        else futures p ! b = run_callable f)"

text \<open>
  What holds of every pool the constructor made, after any history: there is a worker;
  none has died; no item owed is an empty function; the shared states still pending are
  exactly those of the items owed, one item each; and a worker has left its loop only if
  the queue is shut down and empty. The pool's flag says nothing about the queue: between
  the two steps of a \<open>shutdown\<close> the flag is set and the queue is open.
\<close>

definition pool_inv :: "('e, 'r) thread_pool \<Rightarrow> bool" where
  "pool_inv p \<longleftrightarrow>
     workers p \<noteq> []
     \<and> \<not> list_ex is_terminated (workers p)
     \<and> Empty_function \<notin># pending_tasks p
     \<and> image_mset fid (pending_tasks p) =
          mset (filter (\<lambda>k. is_pending (futures p ! k)) [0..<length (futures p)])
     \<and> (list_ex has_exited (workers p) \<longrightarrow>
          q_shutdown (task_queue p) \<and> q_queue (task_queue p) = [])"

text \<open>
  The work left to a pool whose queue is shut down: two steps for each item queued (its
  pop and its run), one more for each worker that is not finished, and one for a run
  under way.
\<close>

fun worker_weight :: "('e, 'r) worker \<Rightarrow> nat" where
  "worker_weight At_pop = 1"
| "worker_weight (Running t) = 2"
| "worker_weight Exited = 0"
| "worker_weight (Terminated e) = 0"

definition work_left :: "('e, 'r) thread_pool \<Rightarrow> nat" where
  "work_left p = 2 * length (q_queue (task_queue p)) + sum_list (map worker_weight (workers p))"

section \<open>Properties of the queue\<close>

lemma push_all_open:
  "\<not> q_shutdown q \<Longrightarrow> push_all vs q = (Returns (), q\<lparr>q_queue := q_queue q @ vs\<rparr>)"
  by (induction vs arbitrary: q) (simp_all add: push_def)

lemma pops_closed:
  "q_shutdown q \<Longrightarrow>
   pops ks q =
     (take (length ks) (map (\<lambda>v. Returns (Some v)) (q_queue q)) @
        replicate (length ks - length (q_queue q)) (Returns None),
      q\<lparr>q_queue := drop (length ks) (q_queue q)\<rparr>)"
proof (induction ks arbitrary: q)
  case Nil
  then show ?case by simp
next
  case (Cons k ks)
  show ?case
  proof (cases "q_queue q")
    case Nil
    have "pop_by k q = (Returns None, q)"
      using Nil Cons.prems by (cases k) (simp_all add: try_pop_def wait_and_pop_def)
    then show ?thesis
      using Cons.IH [of q] Cons.prems Nil by simp
  next
    case (Cons v vs)
    have "pop_by k q = (Returns (Some v), q\<lparr>q_queue := vs\<rparr>)"
      using Cons Cons.prems by (cases k) (simp_all add: try_pop_def wait_and_pop_def)
    then show ?thesis
      using Cons.IH [of "q\<lparr>q_queue := vs\<rparr>"] Cons.prems Cons by simp
  qed
qed

lemma call_state_closed: "q_shutdown q \<Longrightarrow> q_shutdown (call_state c q)"
  by (cases c)
     (simp_all add: push_def emplace_def try_pop_def wait_and_pop_def wait_for_def
        try_pop_out_def wait_and_pop_out_def wait_for_out_def shutdown_def is_shutdown_def
        size_q_def empty_q_def Let_def)

lemma run_calls_closed: "q_shutdown q \<Longrightarrow> q_shutdown (run_calls cs q)"
  by (induction cs arbitrary: q) (simp_all add: call_state_closed)

lemma run_calls_shutdowns:
  "run_calls (replicate (Suc n) Shutdown) q = q\<lparr>q_shutdown := True\<rparr>"
  by (induction n arbitrary: q) (simp_all add: shutdown_def)

section \<open>Properties of the pool's invariant\<close>


lemma is_pending_iff: "is_pending s \<longleftrightarrow> s = Pending"
  by (cases s) simp_all

lemma run_callable_not_Pending: "run_callable f \<noteq> Pending"
  by (cases f) simp_all

lemma count_pending_filter:
  "count (mset (filter (\<lambda>k. is_pending (fs ! k)) [0..<length fs])) k =
     (if k < length fs \<and> fs ! k = Pending then 1 else 0)"
proof -
  have "distinct (filter (\<lambda>k. is_pending (fs ! k)) [0..<length fs])"
    by simp
  then show ?thesis
    by (simp only: distinct_count_atmost_1) (simp add: is_pending_iff)
qed

lemma owed_ok_iff:
  "owed_ok p \<longleftrightarrow>
     image_mset fid (pending_tasks p) =
       mset (filter (\<lambda>k. is_pending (futures p ! k)) [0..<length (futures p)])"
  unfolding owed_ok_def multiset_eq_iff count_pending_filter ..

lemma pool_inv_iff:
  "pool_inv p \<longleftrightarrow>
     workers p \<noteq> []
     \<and> \<not> list_ex is_terminated (workers p)
     \<and> Empty_function \<notin># pending_tasks p
     \<and> owed_ok p
     \<and> (list_ex has_exited (workers p) \<longrightarrow>
          q_shutdown (task_queue p) \<and> q_queue (task_queue p) = [])"
  unfolding pool_inv_def owed_ok_iff ..

lemma running_tasks_update:
  "i < length ws \<Longrightarrow>
   running_tasks (ws[i := w]) + held (ws ! i) = running_tasks ws + held w"
  by (induction ws arbitrary: i) (auto simp: nth_Cons' list_update_code split: nat.splits)

lemma running_tasks_replicate_At_pop: "running_tasks (replicate n At_pop) = {#}"
  by (induction n) simp_all

lemma list_ex_update:
  "list_ex P (ws[i := w]) \<Longrightarrow> P w \<or> list_ex P ws"
  using set_update_subset_insert [of ws i w] by (auto simp: list_ex_iff)

lemma pool_inv_new: "pool_inv (new_thread_pool n hc)"
proof -
  have "unat (if n = 0 then (let n' = ucast (hc - 1) :: 64 word in if n' = 0 then 1 else n') else n) \<noteq> 0"
    by (simp add: Let_def unat_eq_0)
  then show ?thesis
    by (simp add: pool_inv_iff owed_ok_def new_thread_pool_def new_queue_def pending_tasks_def
        running_tasks_replicate_At_pop list_ex_iff Let_def)
qed

lemma submit_closed:
  "q_shutdown (task_queue p) \<Longrightarrow> submit f p = (Throws ClosedError, p)"
  by (simp add: submit_def push_def ClosedError_def)

lemma submit_open:
  "\<not> q_shutdown (task_queue p) \<Longrightarrow>
   submit f p =
     (Returns (length (futures p)),
      p\<lparr>task_queue := (task_queue p)\<lparr>q_queue := q_queue (task_queue p) @ [Packaged (length (futures p)) f]\<rparr>,
        futures := futures p @ [Pending]\<rparr>)"
  by (simp add: submit_def push_def Let_def)

lemma pool_inv_submit:
  assumes "pool_inv p"
  shows "pool_inv (snd (submit f p))"
proof (cases "q_shutdown (task_queue p)")
  case True
  then show ?thesis using assms by (simp add: submit_closed)
next
  case False
  have "count (image_mset fid (pending_tasks p)) (length (futures p)) = 0"
    using assms by (simp add: pool_inv_iff owed_ok_def)
  then show ?thesis
    using assms False
    by (auto simp: submit_open pool_inv_iff owed_ok_def pending_tasks_def nth_append)
qed


lemma worker_step_no_worker: "\<not> i < length (workers p) \<Longrightarrow> worker_step i p = p"
  by (simp add: worker_step_def)

lemma worker_step_finished:
  "workers p ! i = Exited \<or> is_terminated (workers p ! i) \<Longrightarrow> worker_step i p = p"
  by (cases "workers p ! i") (auto simp: worker_step_def)

lemma worker_step_parked:
  "workers p ! i = At_pop \<Longrightarrow> q_queue (task_queue p) = [] \<Longrightarrow> \<not> q_shutdown (task_queue p) \<Longrightarrow>
   worker_step i p = p"
  by (simp add: worker_step_def wait_and_pop_out_def)

lemma worker_step_exit:
  "i < length (workers p) \<Longrightarrow> workers p ! i = At_pop \<Longrightarrow>
   q_queue (task_queue p) = [] \<Longrightarrow> q_shutdown (task_queue p) \<Longrightarrow>
   worker_step i p = p\<lparr>workers := (workers p)[i := Exited]\<rparr>"
  by (simp add: worker_step_def wait_and_pop_out_def)

lemma worker_step_pop:
  "i < length (workers p) \<Longrightarrow> workers p ! i = At_pop \<Longrightarrow> q_queue (task_queue p) = t # ts \<Longrightarrow>
   worker_step i p =
     p\<lparr>task_queue := (task_queue p)\<lparr>q_queue := ts\<rparr>, workers := (workers p)[i := Running t]\<rparr>"
  by (simp add: worker_step_def wait_and_pop_out_def)

lemma worker_step_run:
  "i < length (workers p) \<Longrightarrow> workers p ! i = Running (Packaged j f) \<Longrightarrow>
   j < length (futures p) \<Longrightarrow> futures p ! j = Pending \<Longrightarrow>
   worker_step i p =
     p\<lparr>workers := (workers p)[i := At_pop], futures := (futures p)[j := run_callable f]\<rparr>"
  by (simp add: worker_step_def)

lemma held_in_running: "i < length ws \<Longrightarrow> ws ! i = Running t \<Longrightarrow> t \<in># running_tasks ws"
  by (induction ws arbitrary: i) (auto simp: nth_Cons split: nat.splits)

lemma owed_task:
  assumes "pool_inv p" and "t \<in># pending_tasks p"
  shows "\<exists>j f. t = Packaged j f \<and> j < length (futures p) \<and> futures p ! j = Pending"
proof -
  from assms have "t \<noteq> Empty_function"
    by (auto simp: pool_inv_iff)
  then obtain j f where t: "t = Packaged j f"
    by (cases t) auto
  with assms(2) have "j \<in># image_mset fid (pending_tasks p)"
    by force
  then have "count (image_mset fid (pending_tasks p)) j \<noteq> 0"
    by simp
  with assms(1) have "j < length (futures p) \<and> futures p ! j = Pending"
    unfolding pool_inv_iff owed_ok_def by metis
  with t show ?thesis by blast
qed

lemma pool_inv_worker_step:
  assumes inv: "pool_inv p"
  shows "pool_inv (worker_step i p)"
proof (cases "i < length (workers p)")
  case False
  then show ?thesis using inv by (simp add: worker_step_no_worker)
next
  case i: True
  show ?thesis
  proof (cases "workers p ! i")
    case Exited
    then show ?thesis using inv by (simp add: worker_step_finished)
  next
    case (Terminated e)
    then show ?thesis using inv by (simp add: worker_step_finished)
  next
    case At_pop
    show ?thesis
    proof (cases "q_queue (task_queue p)")
      case Nil
      show ?thesis
      proof (cases "q_shutdown (task_queue p)")
        case False
        then show ?thesis using inv At_pop Nil by (simp add: worker_step_parked)
      next
        case True
        have "running_tasks ((workers p)[i := Exited]) = running_tasks (workers p)"
          using running_tasks_update [OF i, of Exited] At_pop by simp
        then show ?thesis
          using inv i At_pop Nil True
          by (auto simp: worker_step_exit pool_inv_iff owed_ok_def pending_tasks_def
              dest: list_ex_update)
      qed
    next
      case (Cons t ts)
      have "running_tasks ((workers p)[i := Running t]) = running_tasks (workers p) + {#t#}"
        using running_tasks_update [OF i, of "Running t"] At_pop by simp
      then have "pending_tasks (worker_step i p) = pending_tasks p"
        using i At_pop Cons by (simp add: worker_step_pop pending_tasks_def)
      moreover have "\<not> list_ex has_exited (workers p)"
        using inv Cons by (auto simp: pool_inv_iff)
      ultimately show ?thesis
        using inv i At_pop Cons
        by (auto simp: worker_step_pop pool_inv_iff owed_ok_def dest: list_ex_update)
    qed
  next
    case (Running t)
    have "t \<in># pending_tasks p"
      using held_in_running [OF i Running] by (simp add: pending_tasks_def)
    from owed_task [OF inv this] obtain j f where
      t: "t = Packaged j f" and j: "j < length (futures p)" "futures p ! j = Pending"
      by blast
    have "running_tasks ((workers p)[i := At_pop]) + {#t#} = running_tasks (workers p)"
      using running_tasks_update [OF i, of At_pop] Running by simp
    then have owed: "pending_tasks p = pending_tasks (worker_step i p) + {#t#}"
      using i Running t j by (simp add: worker_step_run pending_tasks_def)
    have "owed_ok (worker_step i p)"
      unfolding owed_ok_def
    proof
      fix k
      have "count (image_mset fid (pending_tasks p)) k =
            (if k < length (futures p) \<and> futures p ! k = Pending then 1 else 0)"
        using inv by (simp add: pool_inv_iff owed_ok_def)
      then show "count (image_mset fid (pending_tasks (worker_step i p))) k =
            (if k < length (futures (worker_step i p)) \<and> futures (worker_step i p) ! k = Pending
             then 1 else 0)"
        unfolding owed using i Running t j
        by (auto simp: worker_step_run nth_list_update run_callable_not_Pending)
    qed
    moreover have "Empty_function \<notin># pending_tasks (worker_step i p)"
      using inv owed by (auto simp: pool_inv_iff)
    ultimately show ?thesis
      using inv i Running t j
      by (auto simp: worker_step_run pool_inv_iff dest: list_ex_update)
  qed
qed

lemma pool_inv_run: "pool_inv p \<Longrightarrow> pool_inv (run sched p)"
  by (induction sched arbitrary: p) (simp_all add: pool_inv_worker_step)

subsection \<open>What a worker's step keeps, and the work it does\<close>


lemma worker_step_frame:
  "q_shutdown (task_queue (worker_step i p)) = q_shutdown (task_queue p)
   \<and> p_shutdown (worker_step i p) = p_shutdown p
   \<and> length (workers (worker_step i p)) = length (workers p)"
  by (auto simp: worker_step_def wait_and_pop_out_def
      split: worker.splits outcome.splits prod.splits)

lemma run_frame:
  "q_shutdown (task_queue (run sched p)) = q_shutdown (task_queue p)
   \<and> p_shutdown (run sched p) = p_shutdown p
   \<and> length (workers (run sched p)) = length (workers p)"
  by (induction sched arbitrary: p) (simp_all add: worker_step_frame)

lemma worker_step_exited:
  "i < length (workers p) \<Longrightarrow> has_exited (workers p ! i) \<Longrightarrow>
   has_exited (workers (worker_step j p) ! i)"
  by (cases "j = i")
     (auto simp: worker_step_def wait_and_pop_out_def
      split: worker.splits outcome.splits prod.splits)

lemma run_exited:
  "i < length (workers p) \<Longrightarrow> has_exited (workers p ! i) \<Longrightarrow>
   has_exited (workers (run sched p) ! i)"
  by (induction sched arbitrary: p) (simp_all add: worker_step_exited worker_step_frame)

lemma weight_update:
  "i < length ws \<Longrightarrow>
   sum_list (map worker_weight (ws[i := w])) + worker_weight (ws ! i) =
   sum_list (map worker_weight ws) + worker_weight w"
  by (induction ws arbitrary: i) (auto simp: nth_Cons split: nat.splits)

lemma work_left_step:
  assumes inv: "pool_inv p"
  shows "work_left (worker_step i p) \<le> work_left p"
    and "q_shutdown (task_queue p) \<Longrightarrow> i < length (workers p) \<Longrightarrow>
         \<not> has_exited (workers p ! i) \<Longrightarrow> work_left (worker_step i p) < work_left p"
proof -
  have "work_left (worker_step i p) \<le> work_left p
    \<and> (q_shutdown (task_queue p) \<and> i < length (workers p) \<and> \<not> has_exited (workers p ! i)
        \<longrightarrow> work_left (worker_step i p) < work_left p)"
  proof (cases "i < length (workers p)")
    case False
    then show ?thesis by (simp add: worker_step_no_worker)
  next
    case i: True
    show ?thesis
    proof (cases "workers p ! i")
      case Exited
      then show ?thesis by (simp add: worker_step_finished)
    next
      case (Terminated e)
      moreover have "workers p ! i \<in> set (workers p)"
        using i by simp
      ultimately have "list_ex is_terminated (workers p)"
        unfolding list_ex_iff by force
      then show ?thesis using inv by (simp add: pool_inv_iff)
    next
      case At_pop
      show ?thesis
      proof (cases "q_queue (task_queue p)")
        case Nil
        show ?thesis
        proof (cases "q_shutdown (task_queue p)")
          case False
          then show ?thesis using At_pop Nil by (simp add: worker_step_parked)
        next
          case True
          then show ?thesis
            using weight_update [OF i, of Exited] i At_pop Nil
            by (simp add: worker_step_exit work_left_def)
        qed
      next
        case (Cons t ts)
        then show ?thesis
          using weight_update [OF i, of "Running t"] i At_pop
          by (simp add: worker_step_pop work_left_def)
      qed
    next
      case (Running t)
      have "t \<in># pending_tasks p"
        using held_in_running [OF i Running] by (simp add: pending_tasks_def)
      from owed_task [OF inv this] obtain j f where
        "t = Packaged j f" "j < length (futures p)" "futures p ! j = Pending"
        by blast
      then show ?thesis
        using weight_update [OF i, of At_pop] i Running
        by (simp add: worker_step_run work_left_def)
    qed
  qed
  then show "work_left (worker_step i p) \<le> work_left p"
    and "q_shutdown (task_queue p) \<Longrightarrow> i < length (workers p) \<Longrightarrow>
         \<not> has_exited (workers p ! i) \<Longrightarrow> work_left (worker_step i p) < work_left p"
    by simp_all
qed

lemma fair_run:
  assumes "pool_inv p" and "q_shutdown (task_queue p)" and "i < length (workers p)"
    and "\<not> has_exited (workers (run sched p) ! i)"
  shows "work_left (run sched p) + count_list sched i \<le> work_left p"
  using assms
proof (induction sched arbitrary: p)
  case Nil
  then show ?case by simp
next
  case (Cons j sched)
  let ?p = "worker_step j p"
  have IH: "work_left (run sched ?p) + count_list sched i \<le> work_left ?p"
    using Cons.prems by (intro Cons.IH) (simp_all add: pool_inv_worker_step worker_step_frame)
  have alive: "\<not> has_exited (workers p ! i)"
    using run_exited [of i p "j # sched"] Cons.prems by blast
  have "work_left ?p + (if j = i then 1 else 0) \<le> work_left p"
    using work_left_step(1) [OF Cons.prems(1), of j]
      work_left_step(2) [OF Cons.prems(1), of i] Cons.prems alive
    by (auto simp: Suc_le_eq)
  with IH show ?case by auto
qed

lemma weight_pos:
  "i < length ws \<Longrightarrow> \<not> has_exited (ws ! i) \<Longrightarrow> \<not> is_terminated (ws ! i) \<Longrightarrow>
   0 < sum_list (map worker_weight ws)"
proof -
  assume i: "i < length ws" and "\<not> has_exited (ws ! i)" "\<not> is_terminated (ws ! i)"
  then have "0 < worker_weight (ws ! i)"
    by (cases "ws ! i") simp_all
  moreover have "map worker_weight ws ! i \<le> sum_list (map worker_weight ws)"
    using i by (intro elem_le_sum_list) simp
  ultimately show ?thesis
    using i by simp
qed

lemma fair_run_exits:
  assumes inv: "pool_inv p" and closed: "q_shutdown (task_queue p)"
    and fair: "\<forall>i < length (workers p). work_left p \<le> count_list sched i"
  shows "list_all has_exited (workers (run sched p))"
proof (rule ccontr)
  assume "\<not> list_all has_exited (workers (run sched p))"
  then obtain i where i: "i < length (workers (run sched p))"
    and alive: "\<not> has_exited (workers (run sched p) ! i)"
    by (auto simp: list_all_length)
  have i': "i < length (workers p)"
    using i by (simp add: run_frame)
  have "pool_inv (run sched p)"
    using inv by (rule pool_inv_run)
  then have "\<not> is_terminated (workers (run sched p) ! i)"
    using i by (auto simp: pool_inv_iff list_ex_iff)
  then have "0 < work_left (run sched p)"
    using weight_pos [OF i alive] by (simp add: work_left_def)
  moreover have "work_left (run sched p) + count_list sched i \<le> work_left p"
    using inv closed i' alive by (rule fair_run)
  ultimately show False
    using fair i' by fastforce
qed

subsection \<open>Following one future\<close>


lemma owed_once:
  assumes "owed_ok p" and "pending_tasks p = M + {#Packaged b g#}"
  shows "Packaged b f \<notin># M"
proof
  assume "Packaged b f \<in># M"
  then have "fid (Packaged b f) \<in># image_mset fid M"
    by (rule imageI [of _ "set_mset M" fid, folded set_image_mset [of fid M]])
  then have "1 \<le> count (image_mset fid M) b"
    by (simp add: Suc_le_eq)
  then have "2 \<le> count (image_mset fid (pending_tasks p)) b"
    by (simp add: assms(2))
  moreover have "count (image_mset fid (pending_tasks p)) b \<le> 1"
    using assms(1) by (simp add: owed_ok_def)
  ultimately show False by simp
qed

lemma task_tracked_worker_step:
  assumes inv: "pool_inv p" and tr: "task_tracked p b f"
  shows "task_tracked (worker_step i p) b f"
proof (cases "i < length (workers p)")
  case False
  then show ?thesis using tr by (simp add: worker_step_no_worker)
next
  case i: True
  show ?thesis
  proof (cases "workers p ! i")
    case Exited
    then show ?thesis using tr by (simp add: worker_step_finished)
  next
    case (Terminated e)
    then show ?thesis using tr by (simp add: worker_step_finished)
  next
    case At_pop
    show ?thesis
    proof (cases "q_queue (task_queue p)")
      case Nil
      show ?thesis
      proof (cases "q_shutdown (task_queue p)")
        case False
        then show ?thesis using tr At_pop Nil by (simp add: worker_step_parked)
      next
        case True
        have "running_tasks ((workers p)[i := Exited]) = running_tasks (workers p)"
          using running_tasks_update [OF i, of Exited] At_pop by simp
        then show ?thesis
          using tr i At_pop Nil True
          by (simp add: worker_step_exit task_tracked_def pending_tasks_def)
      qed
    next
      case (Cons t ts)
      have "running_tasks ((workers p)[i := Running t]) = running_tasks (workers p) + {#t#}"
        using running_tasks_update [OF i, of "Running t"] At_pop by simp
      then have "pending_tasks (worker_step i p) = pending_tasks p"
        using i At_pop Cons by (simp add: worker_step_pop pending_tasks_def)
      then show ?thesis
        using tr i At_pop Cons by (simp add: worker_step_pop task_tracked_def)
    qed
  next
    case (Running t)
    have "t \<in># pending_tasks p"
      using held_in_running [OF i Running] by (simp add: pending_tasks_def)
    from owed_task [OF inv this] obtain j g where
      t: "t = Packaged j g" and j: "j < length (futures p)" "futures p ! j = Pending"
      by blast
    have "running_tasks ((workers p)[i := At_pop]) + {#t#} = running_tasks (workers p)"
      using running_tasks_update [OF i, of At_pop] Running by simp
    then have owed: "pending_tasks p = pending_tasks (worker_step i p) + {#Packaged j g#}"
      using i Running t j by (simp add: worker_step_run pending_tasks_def)
    have ok: "owed_ok p"
      using inv by (simp add: pool_inv_iff)
    have fs: "futures (worker_step i p) = (futures p)[j := run_callable g]"
      using i Running t j by (simp add: worker_step_run)
    show ?thesis
    proof (cases "Packaged b f \<in># pending_tasks p")
      case True
      then have pend: "futures p ! b = Pending" and b: "b < length (futures p)"
        using tr by (simp_all add: task_tracked_def)
      show ?thesis
      proof (cases "j = b")
        case True
        then have notin: "Packaged b f \<notin># pending_tasks (worker_step i p)"
          using owed_once [OF ok] owed by blast
        with \<open>Packaged b f \<in># pending_tasks p\<close> have "g = f"
          using owed True by auto
        then show ?thesis
          using notin b True by (simp add: task_tracked_def fs)
      next
        case False
        then have "Packaged b f \<in># pending_tasks (worker_step i p)"
          using True owed by auto
        then show ?thesis
          using False b pend by (simp add: task_tracked_def fs)
      qed
    next
      case False
      then have res: "futures p ! b = run_callable f" and b: "b < length (futures p)"
        using tr by (simp_all add: task_tracked_def)
      have "j \<noteq> b"
        using res j run_callable_not_Pending [of f] by auto
      moreover have "Packaged b f \<notin># pending_tasks (worker_step i p)"
        using False owed by auto
      ultimately show ?thesis
        using b res by (simp add: task_tracked_def fs)
    qed
  qed
qed

lemma task_tracked_run:
  "pool_inv p \<Longrightarrow> task_tracked p b f \<Longrightarrow> task_tracked (run sched p) b f"
  by (induction sched arbitrary: p) (simp_all add: task_tracked_worker_step pool_inv_worker_step)

lemma task_tracked_submit:
  assumes "pool_inv p" and "submit f p = (Returns b, p1)"
  shows "task_tracked p1 b f"
proof -
  have "\<not> q_shutdown (task_queue p)"
    using assms(2) by (auto simp: submit_closed)
  then show ?thesis
    using assms(2) by (auto simp: submit_open task_tracked_def pending_tasks_def)
qed

lemma task_tracked_owed:
  assumes "pool_inv p" and "Packaged b f \<in># pending_tasks p"
  shows "task_tracked p b f"
  using owed_task [OF assms] assms(2) by (simp add: task_tracked_def)

lemma running_tasks_all_exited: "list_all has_exited ws \<Longrightarrow> running_tasks ws = {#}"
  by (induction ws) (auto elim: has_exited.elims)

lemma all_exited_nothing_owed:
  assumes "pool_inv p" and "list_all has_exited (workers p)"
  shows "pending_tasks p = {#}"
proof -
  have "list_ex has_exited (workers p)"
    using assms by (cases "workers p") (auto simp: pool_inv_iff)
  then have "q_queue (task_queue p) = []"
    using assms(1) by (simp add: pool_inv_iff)
  then show ?thesis
    using assms(2) by (simp add: pending_tasks_def running_tasks_all_exited)
qed

lemma nothing_owed_all_ready:
  assumes "pool_inv p" and "pending_tasks p = {#}"
  shows "list_all (\<lambda>s. \<not> is_pending s) (futures p)"
proof -
  have "\<forall>k. \<not> (k < length (futures p) \<and> futures p ! k = Pending)"
    using assms unfolding pool_inv_iff owed_ok_def
    by (metis count_empty image_mset_empty zero_neq_one)
  then show ?thesis
    by (auto simp: list_all_length is_pending_iff)
qed

subsection \<open>Shutdown, and the number of threads\<close>


lemma invoke_length: "invoke t fs = (r, fs') \<Longrightarrow> length fs' = length fs"
  by (cases t) (auto split: if_splits)

lemma worker_step_futures_length:
  "length (futures (worker_step i p)) = length (futures p)"
  by (auto simp: worker_step_def wait_and_pop_out_def
      split: worker.splits outcome.splits prod.splits dest: invoke_length)

lemma run_futures_length: "length (futures (run sched p)) = length (futures p)"
  by (induction sched arbitrary: p) (simp_all add: worker_step_futures_length)

lemma pool_inv_close:
  "pool_inv p \<Longrightarrow>
   pool_inv (p\<lparr>p_shutdown := True, task_queue := snd (shutdown (task_queue p))\<rparr>)"
  by (simp add: pool_inv_iff owed_ok_def pending_tasks_def shutdown_def)

lemma flag_already_set: "p_shutdown p \<Longrightarrow> p\<lparr>p_shutdown := True\<rparr> = p"
  by (cases p) simp

lemma pool_shutdown_unfold:
  "pool_shutdown sched p =
     (if p_shutdown p then (Returns (), p)
      else
        let p1 = p\<lparr>p_shutdown := True\<rparr>;
            p2 = p1\<lparr>task_queue := snd (shutdown (task_queue p1))\<rparr>;
            p3 = run sched p2
        in if list_all has_exited (workers p3) then (Returns (), p3) else (Blocks, p3))"
  by (simp add: pool_shutdown_def shutdown_exchange_def shutdown_queue_and_join_def Let_def
      flag_already_set)

lemma pool_inv_pool_shutdown: "pool_inv p \<Longrightarrow> pool_inv (snd (pool_shutdown sched p))"
  using pool_inv_run [OF pool_inv_close, of p sched]
  by (simp add: pool_shutdown_unfold Let_def)

lemma pool_shutdown_closes:
  "\<not> p_shutdown p \<Longrightarrow> q_shutdown (task_queue (snd (pool_shutdown sched p)))
     \<and> p_shutdown (snd (pool_shutdown sched p))"
  by (simp add: pool_shutdown_unfold Let_def run_frame shutdown_def)

lemma shutdown_queue_and_join_closes:
  "q_shutdown (task_queue (snd (shutdown_queue_and_join sched p)))"
  by (simp add: shutdown_queue_and_join_def Let_def run_frame shutdown_def)

lemma unat_widen: "unat (ucast (w :: 32 word) :: 64 word) = unat w"
proof -
  have "unat w < 2 ^ LENGTH(32)"
    by (rule unsigned_less)
  moreover have "(2 :: nat) ^ LENGTH(32) \<le> 2 ^ LENGTH(64)"
    by simp
  ultimately have "unat w < 2 ^ LENGTH(64)"
    by (rule less_le_trans)
  then show ?thesis
    unfolding unsigned_ucast_eq by (rule take_bit_nat_eq_self)
qed

lemma unat_all_ones: "unat (0 - 1 :: 32 word) = 4294967295"
proof -
  have "unat (- 1 :: 32 word) = mask 32"
    using unsigned_minus_1_eq_mask [where ?'b = 32 and ?'a = nat] by simp
  also have "\<dots> = 2 ^ 32 - 1"
    by (simp only: mask_eq_exp_minus_1)
  also have "\<dots> = (4294967295 :: nat)"
    by simp
  finally show ?thesis by simp
qed

lemma thread_count_new:
  "thread_count (new_thread_pool n hc) =
     (if n = 0 then (if unat (hc - 1) = 0 then 1 else unat (hc - 1)) else unat n)"
proof -
  have "(ucast (hc - 1) :: 64 word) = 0 \<longleftrightarrow> unat (hc - 1) = 0"
    using unat_widen [of "hc - 1"] by (simp only: unat_eq_0 [symmetric])
  then show ?thesis
    by (simp add: thread_count_def new_thread_pool_def Let_def unat_widen)
qed

lemma new_thread_pool_default:
  assumes "hc \<noteq> 0"
  shows "thread_count (new_thread_pool 0 hc) = max (unat hc - 1) 1"
  using assms by (auto simp: thread_count_new unat_minus_one max_def)

subsection \<open>Evaluating the pool on given states\<close>


lemma new_thread_pool_2:
  "new_thread_pool 2 hc =
     \<lparr>task_queue = \<lparr>q_queue = [], q_shutdown = False\<rparr>, workers = [At_pop, At_pop],
      p_shutdown = False, futures = []\<rparr>"
proof -
  have "replicate 2 At_pop = [At_pop, At_pop]"
    by (simp add: numeral_2_eq_2)
  then show ?thesis
    by (simp add: new_thread_pool_def new_queue_def)
qed

lemmas pool_eval =
  submit_open submit_closed worker_step_pop worker_step_run worker_step_exit
  worker_step_parked worker_step_finished

lemma submit_barriers_closed:
  "q_shutdown (task_queue p) \<Longrightarrow> submit_barriers (Suc k) p = (Throws ClosedError, p)"
  by (simp add: submit_closed)



lemma destroy_unfold:
  assumes "\<not> p_shutdown p"
  shows "destroy sched p =
    (if list_all has_exited
          (workers (run sched (p\<lparr>p_shutdown := True, task_queue := snd (shutdown (task_queue p))\<rparr>)))
     then (Returns (),
           (run sched (p\<lparr>p_shutdown := True, task_queue := snd (shutdown (task_queue p))\<rparr>))
             \<lparr>task_queue :=
                snd (shutdown (task_queue
                  (run sched (p\<lparr>p_shutdown := True, task_queue := snd (shutdown (task_queue p))\<rparr>))))\<rparr>)
     else (Blocks, run sched (p\<lparr>p_shutdown := True, task_queue := snd (shutdown (task_queue p))\<rparr>)))"
  using assms by (simp add: destroy_def pool_shutdown_unfold Let_def)

lemma destroy_example:
  "destroy [0, 1, 0, 1, 0, 1, 0, 1]
     (snd (submit (Return_value 7) (new_thread_pool 2 8 :: (string, int) thread_pool))) =
   (Returns (),
    \<lparr>task_queue = \<lparr>q_queue = [], q_shutdown = True\<rparr>, workers = [Exited, Exited],
     p_shutdown = True, futures = [Ready_value 7]\<rparr>)"
  by (simp add: new_thread_pool_2 pool_eval destroy_unfold shutdown_def)

text \<open>
  On a pool that is not shut down, the first loop of \<open>wait_all\<close> submits one barrier for
  each worker, and the call leaves both shutdown flags as they were.
\<close>

lemma submit_barriers_open:
  "\<not> q_shutdown (task_queue p) \<Longrightarrow>
   submit_barriers k p =
     (Returns [length (futures p)..<length (futures p) + k],
      p\<lparr>task_queue := (task_queue p)
           \<lparr>q_queue := q_queue (task_queue p) @
              map (\<lambda>b. Packaged b Return_void) [length (futures p)..<length (futures p) + k]\<rparr>,
        futures := futures p @ replicate k Pending\<rparr>)"
proof (induction k arbitrary: p)
  case 0
  then show ?case by simp
next
  case (Suc k)
  let ?p' = "p\<lparr>task_queue := (task_queue p)
       \<lparr>q_queue := q_queue (task_queue p) @ [Packaged (length (futures p)) Return_void]\<rparr>,
     futures := futures p @ [Pending]\<rparr>"
  have "\<not> q_shutdown (task_queue ?p')"
    using Suc.prems by simp
  from Suc.IH [OF this] show ?case
    using Suc.prems by (simp add: submit_open upt_conv_Cons replicate_app_Cons_same)
qed

lemma wait_all_barriers:
  assumes "\<not> q_shutdown (task_queue p)"
  shows "fst (submit_barriers (thread_count p) p) =
           Returns [length (futures p)..<length (futures p) + thread_count p]
    \<and> \<not> p_shutdown (snd (wait_all sched p)) = (\<not> p_shutdown p)
    \<and> \<not> q_shutdown (task_queue (snd (wait_all sched p)))"
  using assms
  by (simp add: submit_barriers_open wait_all_def thread_count_def Let_def run_frame)

text \<open>The calls made from outside keep the invariant as well.\<close>

lemma pool_inv_submit_barriers: "pool_inv p \<Longrightarrow> pool_inv (snd (submit_barriers k p))"
proof (induction k arbitrary: p)
  case 0
  then show ?case by simp
next
  case (Suc k)
  show ?case
  proof (cases "q_shutdown (task_queue p)")
    case True
    then show ?thesis using Suc.prems by (simp add: submit_closed)
  next
    case False
    have "snd (submit_barriers (Suc k) p) =
          snd (submit_barriers k (snd (submit Return_void p)))"
      using False
      by (cases "submit_barriers k (snd (submit Return_void p))";
          cases "fst (submit_barriers k (snd (submit Return_void p)))")
         (simp_all add: submit_open)
    moreover have "pool_inv (snd (submit Return_void p))"
      using Suc.prems by (rule pool_inv_submit)
    ultimately show ?thesis
      using Suc.IH by simp
  qed
qed

lemma pool_inv_queue_shutdown:
  "pool_inv p \<Longrightarrow> pool_inv (p\<lparr>task_queue := snd (shutdown (task_queue p))\<rparr>)"
  by (simp add: pool_inv_iff owed_ok_def pending_tasks_def shutdown_def)

lemma pool_inv_wait_all:
  assumes "pool_inv p"
  shows "pool_inv (snd (wait_all sched p))"
proof -
  obtain r p1 where sb: "submit_barriers (length (workers p)) p = (r, p1)"
    by (cases "submit_barriers (length (workers p)) p")
  have inv1: "pool_inv p1"
    using pool_inv_submit_barriers [OF assms, of "length (workers p)"] sb by simp
  then have "pool_inv (run sched p1)"
    by (rule pool_inv_run)
  with inv1 show ?thesis
    by (cases r) (simp_all add: wait_all_def sb Let_def)
qed

lemma pool_inv_destroy:
  assumes "pool_inv p"
  shows "pool_inv (snd (destroy sched p))"
proof -
  obtain r p' where ps: "pool_shutdown sched p = (r, p')"
    by (cases "pool_shutdown sched p")
  have inv': "pool_inv p'"
    using pool_inv_pool_shutdown [OF assms, of sched] ps by simp
  then have "pool_inv (p'\<lparr>task_queue := snd (shutdown (task_queue p'))\<rparr>)"
    by (rule pool_inv_queue_shutdown)
  with inv' show ?thesis
    by (cases r) (simp_all add: destroy_def ps)
qed

subsection \<open>Histories\<close>

lemma run_events_steps: "run_events (map Worker_step sched) p = run sched p"
  by (induction sched arbitrary: p) simp_all

lemma pool_inv_exchange: "pool_inv p \<Longrightarrow> pool_inv (snd (shutdown_exchange p))"
  by (simp add: pool_inv_iff owed_ok_def pending_tasks_def shutdown_exchange_def)

lemma pool_inv_apply_event: "pool_inv p \<Longrightarrow> pool_inv (apply_event e p)"
  by (cases e)
     (simp_all add: pool_inv_worker_step pool_inv_submit pool_inv_exchange
        pool_inv_queue_shutdown)

lemma pool_inv_run_events: "pool_inv p \<Longrightarrow> pool_inv (run_events es p)"
  by (induction es arbitrary: p) (simp_all add: pool_inv_apply_event)

lemma apply_event_frame:
  "length (workers (apply_event e p)) = length (workers p)
   \<and> (q_shutdown (task_queue (apply_event e p)) \<longleftrightarrow>
        q_shutdown (task_queue p) \<or> e = Shutdown_queue)"
proof (cases e)
  case (Worker_step i)
  then show ?thesis by (simp add: worker_step_frame)
next
  case (Submit_call g)
  then show ?thesis
    by (cases "q_shutdown (task_queue p)") (simp_all add: submit_closed submit_open)
next
  case Shutdown_exchange
  then show ?thesis by (simp add: shutdown_exchange_def)
next
  case Shutdown_queue
  then show ?thesis by (simp add: shutdown_def)
qed

lemma run_events_frame:
  "length (workers (run_events es p)) = length (workers p)
   \<and> (q_shutdown (task_queue (run_events es p)) \<longleftrightarrow>
        q_shutdown (task_queue p) \<or> Shutdown_queue \<in> set es)"
  by (induction es arbitrary: p) (auto simp: apply_event_frame)

lemma task_tracked_submit_other:
  assumes "task_tracked p b f"
  shows "task_tracked (snd (submit g p)) b f"
proof (cases "q_shutdown (task_queue p)")
  case True
  then show ?thesis using assms by (simp add: submit_closed)
next
  case False
  have "b < length (futures p)"
    using assms by (simp add: task_tracked_def)
  then show ?thesis
    using assms False by (auto simp: submit_open task_tracked_def pending_tasks_def nth_append)
qed

lemma task_tracked_apply_event:
  assumes "pool_inv p" and "task_tracked p b f"
  shows "task_tracked (apply_event e p) b f"
proof (cases e)
  case (Worker_step i)
  then show ?thesis using assms by (simp add: task_tracked_worker_step)
next
  case (Submit_call g)
  then show ?thesis using assms(2) by (simp add: task_tracked_submit_other)
next
  case Shutdown_exchange
  then show ?thesis
    using assms(2) by (simp add: task_tracked_def pending_tasks_def shutdown_exchange_def)
next
  case Shutdown_queue
  then show ?thesis
    using assms(2) by (simp add: task_tracked_def pending_tasks_def shutdown_def)
qed

lemma task_tracked_run_events:
  "pool_inv p \<Longrightarrow> task_tracked p b f \<Longrightarrow> task_tracked (run_events es p) b f"
  by (induction es arbitrary: p) (simp_all add: task_tracked_apply_event pool_inv_apply_event)

section \<open>The claims\<close>

text \<open>
  C1. Items pushed on an open queue and then a \<open>shutdown()\<close>: every push returns, the
  shutdown keeps the items, and any later sequence of \<open>try_pop\<close> and \<open>wait_and_pop\<close>
  calls, in any mix, returns the queued items in the order they were pushed, and after
  the last of them returns empty each time; no pop blocks and no item is lost.
\<close>

theorem drain_after_shutdown:
  assumes "\<not> q_shutdown q"
  shows "fst (push_all xs q) = Returns ()
    \<and> q_queue (snd (shutdown (snd (push_all xs q)))) = q_queue q @ xs
    \<and> fst (pops ks (snd (shutdown (snd (push_all xs q))))) =
        take (length ks) (map (\<lambda>v. Returns (Some v)) (q_queue q @ xs)) @
        replicate (length ks - length (q_queue q @ xs)) (Returns None)"
proof -
  let ?q2 = "snd (shutdown (snd (push_all xs q)))"
  have q2: "?q2 = q\<lparr>q_queue := q_queue q @ xs, q_shutdown := True\<rparr>"
    using assms by (simp add: push_all_open shutdown_def)
  have "q_shutdown ?q2" by (simp add: q2)
  from pops_closed [OF this, of ks] show ?thesis
    using assms by (simp add: push_all_open shutdown_def)
qed

theorem drain_after_shutdown_witness:
  "fst (push_all [1, 2, 3 :: int] new_queue) = Returns ()
   \<and> q_queue (snd (shutdown (snd (push_all [1, 2, 3 :: int] new_queue)))) = [1, 2, 3]
   \<and> fst (pops [By_try_pop, By_wait_and_pop, By_try_pop, By_wait_and_pop, By_try_pop]
        (snd (shutdown (snd (push_all [1, 2, 3 :: int] new_queue))))) =
      [Returns (Some 1), Returns (Some 2), Returns (Some 3), Returns None, Returns None]"
  using drain_after_shutdown [of new_queue "[1, 2, 3 :: int]"
      "[By_try_pop, By_wait_and_pop, By_try_pop, By_wait_and_pop, By_try_pop]"]
  by (simp add: new_queue_def)

text \<open>
  C3. \<open>wait_and_pop\<close> returns the head item and removes it whenever the queue holds an
  item; it returns empty exactly when the queue is shut down and holds no item; on an
  open queue it never returns empty (with no item there it stays blocked).
\<close>

theorem wait_and_pop_result:
  "(q_queue q \<noteq> [] \<longrightarrow>
      wait_and_pop q = (Returns (Some (hd (q_queue q))), q\<lparr>q_queue := tl (q_queue q)\<rparr>))
   \<and> (fst (wait_and_pop q) = Returns None \<longleftrightarrow> q_shutdown q \<and> q_queue q = [])
   \<and> (\<not> q_shutdown q \<longrightarrow> fst (wait_and_pop q) \<noteq> Returns None)
   \<and> (fst (wait_and_pop q) = Blocks \<longleftrightarrow> \<not> q_shutdown q \<and> q_queue q = [])"
  by (simp add: wait_and_pop_def)

theorem wait_and_pop_result_witness:
  "wait_and_pop \<lparr>q_queue = [4, 5 :: int], q_shutdown = False\<rparr> =
     (Returns (Some 4), \<lparr>q_queue = [5], q_shutdown = False\<rparr>)
   \<and> fst (wait_and_pop \<lparr>q_queue = [] :: int list, q_shutdown = True\<rparr>) = Returns None
   \<and> fst (wait_and_pop \<lparr>q_queue = [] :: int list, q_shutdown = False\<rparr>) = Blocks"
  using wait_and_pop_result [of "\<lparr>q_queue = [4, 5 :: int], q_shutdown = False\<rparr>"]
    wait_and_pop_result [of "\<lparr>q_queue = [] :: int list, q_shutdown = True\<rparr>"]
    wait_and_pop_result [of "\<lparr>q_queue = [] :: int list, q_shutdown = False\<rparr>"]
  by simp

text \<open>
  C4. The shutdown flag is monotonic: from a queue that is shut down, no sequence of
  calls of any member function leads to a queue that is not. \<open>shutdown()\<close> is
  idempotent: one call or many leave the flag set and the items as they were.
\<close>

theorem shutdown_monotonic:
  "(q_shutdown q \<longrightarrow> q_shutdown (run_calls cs q))
   \<and> q_shutdown (run_calls cs (snd (shutdown q)))
   \<and> run_calls (replicate (Suc n) Shutdown) q = q\<lparr>q_shutdown := True\<rparr>
   \<and> snd (shutdown (snd (shutdown q))) = snd (shutdown q)
   \<and> q_queue (snd (shutdown q)) = q_queue q"
proof (intro conjI impI)
  show "q_shutdown (run_calls cs q)" if "q_shutdown q"
    using that by (rule run_calls_closed)
  show "q_shutdown (run_calls cs (snd (shutdown q)))"
    by (rule run_calls_closed) (simp add: shutdown_def)
  show "run_calls (replicate (Suc n) Shutdown) q = q\<lparr>q_shutdown := True\<rparr>"
    by (rule run_calls_shutdowns)
  show "snd (shutdown (snd (shutdown q))) = snd (shutdown q)"
    by (simp add: shutdown_def)
  show "q_queue (snd (shutdown q)) = q_queue q"
    by (simp add: shutdown_def)
qed

theorem shutdown_monotonic_witness:
  "q_shutdown (run_calls [Push 3, TryPop, WaitAndPop, WaitFor 5 5, Emplace 4, Shutdown, Size]
      \<lparr>q_queue = [1, 2 :: int], q_shutdown = True\<rparr>)
   \<and> run_calls (replicate (Suc 2) Shutdown) \<lparr>q_queue = [1, 2 :: int], q_shutdown = False\<rparr> =
      \<lparr>q_queue = [1, 2], q_shutdown = True\<rparr>"
  using shutdown_monotonic [of "\<lparr>q_queue = [1, 2 :: int], q_shutdown = True\<rparr>"
      "[Push 3, TryPop, WaitAndPop, WaitFor 5 5, Emplace 4, Shutdown, Size]" 2]
    shutdown_monotonic [of "\<lparr>q_queue = [1, 2 :: int], q_shutdown = False\<rparr>" "[]" 2]
  by simp

text \<open>
  C7. On an open queue that holds no item when the timeout has elapsed, \<open>wait_for\<close>
  returns empty and leaves the queue as it is; on a queue that is shut down and holds
  no item it returns empty as well, at any time; and in no state does it throw.
\<close>

theorem wait_for_timeout:
  "(\<not> q_shutdown q \<and> q_queue q = [] \<and> timeout \<le> elapsed \<longrightarrow>
      wait_for timeout elapsed q = (Returns None, q))
   \<and> (q_shutdown q \<and> q_queue q = [] \<longrightarrow> wait_for timeout elapsed q = (Returns None, q))
   \<and> (\<forall>e. fst (wait_for timeout elapsed q) \<noteq> Throws e)"
  by (simp add: wait_for_def Let_def)

theorem wait_for_timeout_witness:
  "wait_for 100 100 \<lparr>q_queue = [] :: int list, q_shutdown = False\<rparr> =
     (Returns None, \<lparr>q_queue = [], q_shutdown = False\<rparr>)
   \<and> wait_for 100 0 \<lparr>q_queue = [] :: int list, q_shutdown = True\<rparr> =
     (Returns None, \<lparr>q_queue = [], q_shutdown = True\<rparr>)"
  using wait_for_timeout [of "\<lparr>q_queue = [] :: int list, q_shutdown = False\<rparr>" 100 100]
    wait_for_timeout [of "\<lparr>q_queue = [] :: int list, q_shutdown = True\<rparr>" 100 0]
  by simp

text \<open>
  C5. A pool constructed with \<open>num_threads = 0\<close> on a platform whose
  \<open>hardware_concurrency()\<close> is 0 (the value the standard prescribes when the number is
  not computable) does not get the one worker of the fallback: the subtraction wraps on
  32 bits before the test for zero, and the pool asks for 4294967295 threads.
\<close>

theorem default_thread_count_wraps:
  "thread_count (new_thread_pool 0 0) = 4294967295"
  by (simp only: thread_count_new unat_all_ones refl if_True) simp

text \<open>
  C2, as stated, fails on a pool: a caller thread that is between the two steps of its
  \<open>shutdown()\<close> has set the pool's flag and not yet shut the queue down. Another thread
  then sees \<open>is_shutdown()\<close> true, and its own \<open>shutdown()\<close> returns at once, yet its
  \<open>submit\<close> returns a future and queues the task.
\<close>

theorem submit_in_shutdown_window_counterexample:
  "pool_is_shutdown (snd (shutdown_exchange (new_thread_pool 2 8 :: (string, int) thread_pool)))
   \<and> pool_shutdown [] (snd (shutdown_exchange (new_thread_pool 2 8 :: (string, int) thread_pool))) =
      (Returns (), snd (shutdown_exchange (new_thread_pool 2 8)))
   \<and> submit (Return_value 42)
        (snd (shutdown_exchange (new_thread_pool 2 8 :: (string, int) thread_pool))) =
      (Returns 0,
       \<lparr>task_queue = \<lparr>q_queue = [Packaged 0 (Return_value 42)], q_shutdown = False\<rparr>,
        workers = [At_pop, At_pop], p_shutdown = True, futures = [Pending]\<rparr>)"
  by (simp add: new_thread_pool_2 shutdown_exchange_def pool_is_shutdown_def
      pool_shutdown_unfold submit_open)

text \<open>
  C2, amended. \<open>push\<close> on a queue that is shut down throws \<open>ClosedError\<close> and leaves the
  queue, its items included, as it was; so does a \<open>push\<close> that follows a \<open>shutdown()\<close>. On
  a queue that is not shut down \<open>push\<close> returns, with the item appended. What \<open>submit\<close>
  does depends on the pool's queue alone: when the queue is shut down it throws
  \<open>ClosedError\<close> to the caller and the pool is as it was (nothing is queued and no future
  is made), and when the queue is open it returns a future. The queue is shut down, and
  \<open>submit\<close> throws, after the \<open>shutdown()\<close> call that found the flag clear (whether or not
  its joins are over), after the second step of any \<open>shutdown()\<close>, and after every history
  in which that step occurs.
\<close>

theorem push_after_shutdown_throws:
  "(q_shutdown q \<longrightarrow> push v q = (Throws ClosedError, q))
   \<and> push v (snd (shutdown q)) = (Throws ClosedError, snd (shutdown q))
   \<and> (\<not> q_shutdown q \<longrightarrow> push v q = (Returns (), q\<lparr>q_queue := q_queue q @ [v]\<rparr>))
   \<and> (q_shutdown (task_queue p) \<longrightarrow> submit f p = (Throws ClosedError, p))
   \<and> (\<not> q_shutdown (task_queue p) \<longrightarrow> fst (submit f p) = Returns (length (futures p)))
   \<and> (\<not> pool_is_shutdown p \<longrightarrow>
        submit f (snd (pool_shutdown sched p)) = (Throws ClosedError, snd (pool_shutdown sched p)))
   \<and> submit f (snd (shutdown_queue_and_join sched p)) =
        (Throws ClosedError, snd (shutdown_queue_and_join sched p))
   \<and> (Shutdown_queue \<in> set es \<longrightarrow>
        submit f (run_events es p) = (Throws ClosedError, run_events es p))"
proof (intro conjI impI)
  show "push v q = (Throws ClosedError, q)" if "q_shutdown q"
    using that by (simp add: push_def ClosedError_def)
  show "push v (snd (shutdown q)) = (Throws ClosedError, snd (shutdown q))"
    by (simp add: push_def shutdown_def ClosedError_def)
  show "push v q = (Returns (), q\<lparr>q_queue := q_queue q @ [v]\<rparr>)" if "\<not> q_shutdown q"
    using that by (simp add: push_def)
  show "submit f p = (Throws ClosedError, p)" if "q_shutdown (task_queue p)"
    using that by (rule submit_closed)
  show "fst (submit f p) = Returns (length (futures p))" if "\<not> q_shutdown (task_queue p)"
    using that by (simp add: submit_open)
  show "submit f (snd (pool_shutdown sched p)) = (Throws ClosedError, snd (pool_shutdown sched p))"
    if "\<not> pool_is_shutdown p"
    using that by (intro submit_closed) (simp add: pool_shutdown_closes pool_is_shutdown_def)
  show "submit f (snd (shutdown_queue_and_join sched p)) =
        (Throws ClosedError, snd (shutdown_queue_and_join sched p))"
    by (intro submit_closed) (rule shutdown_queue_and_join_closes)
  show "submit f (run_events es p) = (Throws ClosedError, run_events es p)"
    if "Shutdown_queue \<in> set es"
    using that by (intro submit_closed) (simp add: run_events_frame)
qed

theorem push_after_shutdown_throws_witness:
  "push (3 :: int) \<lparr>q_queue = [1, 2], q_shutdown = True\<rparr> =
     (Throws ClosedError, \<lparr>q_queue = [1, 2], q_shutdown = True\<rparr>)
   \<and> push (3 :: int) \<lparr>q_queue = [1, 2], q_shutdown = False\<rparr> =
     (Returns (), \<lparr>q_queue = [1, 2, 3], q_shutdown = False\<rparr>)
   \<and> submit (Return_value (42 :: int))
        (snd (pool_shutdown [0, 1] (new_thread_pool 2 8 :: (string, int) thread_pool))) =
     (Throws ClosedError,
      \<lparr>task_queue = \<lparr>q_queue = [], q_shutdown = True\<rparr>, workers = [Exited, Exited],
       p_shutdown = True, futures = []\<rparr>)
   \<and> submit (Return_value (42 :: int))
        (run_events [Shutdown_exchange, Shutdown_queue]
          (new_thread_pool 2 8 :: (string, int) thread_pool)) =
     (Throws ClosedError,
      \<lparr>task_queue = \<lparr>q_queue = [], q_shutdown = True\<rparr>, workers = [At_pop, At_pop],
       p_shutdown = True, futures = []\<rparr>)"
  using push_after_shutdown_throws [of "\<lparr>q_queue = [1, 2 :: int], q_shutdown = True\<rparr>" 3
      "new_thread_pool 2 8 :: (string, int) thread_pool" "Return_value 42" "[0, 1]"
      "[Shutdown_exchange, Shutdown_queue]"]
    push_after_shutdown_throws [of "\<lparr>q_queue = [1, 2 :: int], q_shutdown = False\<rparr>" 3
      "new_thread_pool 2 8 :: (string, int) thread_pool" "Return_value 42" "[0, 1]"
      "[Shutdown_exchange, Shutdown_queue]"]
  by (simp add: new_thread_pool_2 pool_shutdown_unfold shutdown_def pool_eval ClosedError_def
      pool_is_shutdown_def shutdown_exchange_def)

text \<open>
  C10, as stated, fails: on a pool whose \<open>shutdown()\<close> has begun but has not yet shut the
  queue down, \<open>wait_all\<close> queues its barriers, the workers run them, and the call returns
  normally.
\<close>

theorem wait_all_in_shutdown_window_counterexample:
  "pool_is_shutdown (snd (shutdown_exchange (new_thread_pool 2 8 :: (string, int) thread_pool)))
   \<and> wait_all [0, 0, 1, 1]
        (snd (shutdown_exchange (new_thread_pool 2 8 :: (string, int) thread_pool))) =
      (Returns (),
       \<lparr>task_queue = \<lparr>q_queue = [], q_shutdown = False\<rparr>, workers = [At_pop, At_pop],
        p_shutdown = True, futures = [Ready_void, Ready_void]\<rparr>)"
  by (simp add: new_thread_pool_2 shutdown_exchange_def pool_is_shutdown_def wait_all_def
      pool_eval is_ready_def)

text \<open>
  C10, amended. \<open>wait_all\<close> on a pool whose queue is shut down throws \<open>ClosedError\<close>: the
  pool has a worker, so the first loop calls \<open>submit\<close>, whose \<open>push\<close> throws. It does not
  return and does not wait, whatever the workers do, and the pool is as it was. The queue
  is shut down after the \<open>shutdown()\<close> call that found the flag clear, and after every
  history in which the second step of a \<open>shutdown()\<close> occurs.
\<close>

theorem wait_all_after_shutdown_throws:
  assumes "pool_inv p"
  shows "(q_shutdown (task_queue p) \<longrightarrow> wait_all sched p = (Throws ClosedError, p))
    \<and> (\<not> pool_is_shutdown p \<longrightarrow>
         wait_all sched (snd (pool_shutdown joins p)) =
           (Throws ClosedError, snd (pool_shutdown joins p)))
    \<and> (Shutdown_queue \<in> set es \<longrightarrow>
         wait_all sched (run_events es p) = (Throws ClosedError, run_events es p))"
proof -
  have closed: "wait_all sched p' = (Throws ClosedError, p')"
    if inv: "pool_inv p'" and q: "q_shutdown (task_queue p')" for p' :: "('a, 'b) thread_pool"
  proof -
    obtain k where "length (workers p') = Suc k"
      using inv by (cases "workers p'") (auto simp: pool_inv_iff)
    then show ?thesis
      using q by (simp add: wait_all_def submit_closed)
  qed
  have "wait_all sched p = (Throws ClosedError, p)" if "q_shutdown (task_queue p)"
    using assms that by (rule closed)
  moreover have "wait_all sched (snd (pool_shutdown joins p)) =
      (Throws ClosedError, snd (pool_shutdown joins p))" if "\<not> pool_is_shutdown p"
    using that assms
    by (intro closed) (simp_all add: pool_inv_pool_shutdown pool_shutdown_closes pool_is_shutdown_def)
  moreover have "wait_all sched (run_events es p) = (Throws ClosedError, run_events es p)"
    if "Shutdown_queue \<in> set es"
    using that assms by (intro closed) (simp_all add: pool_inv_run_events run_events_frame)
  ultimately show ?thesis by blast
qed

theorem wait_all_after_shutdown_throws_witness:
  "wait_all [0, 1]
     (snd (pool_shutdown [0, 1] (new_thread_pool 2 8 :: (string, int) thread_pool))) =
   (Throws ClosedError,
    \<lparr>task_queue = \<lparr>q_queue = [], q_shutdown = True\<rparr>, workers = [Exited, Exited],
     p_shutdown = True, futures = []\<rparr>)"
  using wait_all_after_shutdown_throws
      [OF pool_inv_new [of 2 8, where ?'a = string and ?'b = int], of "[0, 1]" "[0, 1]" "[]"]
  by (simp add: new_thread_pool_2 pool_shutdown_unfold shutdown_def pool_eval pool_is_shutdown_def)

text \<open>
  C8. A pool of two workers with one task queued; then \<open>wait_all\<close>. The call queues two
  barriers behind the task. Worker 0 pops the task and is inside it; worker 1 pops and
  runs the first barrier, then the second. Both barrier futures are ready, so \<open>wait_all\<close>
  returns, while the task submitted before the call is still running and its future
  still pending.
\<close>

theorem wait_all_returns_before_earlier_task:
  "wait_all [0, 1, 1, 1, 1]
     (snd (submit (Return_value (7 :: int)) (new_thread_pool 2 8 :: (string, int) thread_pool))) =
   (Returns (),
    \<lparr>task_queue = \<lparr>q_queue = [], q_shutdown = False\<rparr>,
     workers = [Running (Packaged 0 (Return_value 7)), At_pop],
     p_shutdown = False, futures = [Pending, Ready_void, Ready_void]\<rparr>)"
  by (simp add: new_thread_pool_2 wait_all_def pool_eval is_ready_def)

text \<open>
  C6. A callable \<open>f\<close> submitted to a pool, with \<open>b\<close> the future \<open>submit\<close> returned, and
  any history of the pool after that: steps of the workers interleaved with further
  submissions (of any callables, by any caller, \<open>wait_all\<close> included) and with the steps
  of \<open>shutdown\<close>. The future is pending as long as the pool still owes the run of the item
  (it is queued, or a worker is inside it); once a worker has run it, the future holds
  the value \<open>f\<close> returned, or the exception \<open>f\<close> threw. No worker has died of an exception
  and the pool has the workers it had. Unless the history shut the queue down, no worker
  has left its loop and a further \<open>submit\<close> returns a future.
\<close>

theorem submitted_task_resolves:
  assumes inv: "pool_inv p" and sub: "submit f p = (Returns b, p1)"
  shows "futures p1 ! b = Pending
    \<and> (Packaged b f \<in># pending_tasks (run_events es p1) \<longrightarrow>
         futures (run_events es p1) ! b = Pending)
    \<and> (Packaged b f \<notin># pending_tasks (run_events es p1) \<longrightarrow>
         futures (run_events es p1) ! b =
           (case f of Return_value v \<Rightarrow> Ready_value v | Return_void \<Rightarrow> Ready_void
            | Throw e \<Rightarrow> Ready_exception e))
    \<and> \<not> list_ex is_terminated (workers (run_events es p1))
    \<and> length (workers (run_events es p1)) = length (workers p)
    \<and> (Shutdown_queue \<notin> set es \<longrightarrow>
         \<not> list_ex has_exited (workers (run_events es p1))
         \<and> fst (submit g (run_events es p1)) = Returns (length (futures (run_events es p1))))"
proof -
  let ?p2 = "run_events es p1"
  have "p1 = snd (submit f p)"
    using sub by simp
  then have inv1: "pool_inv p1"
    using inv by (simp add: pool_inv_submit)
  then have inv2: "pool_inv ?p2"
    by (rule pool_inv_run_events)
  have "\<not> q_shutdown (task_queue p)"
    using sub by (auto simp: submit_closed)
  then have p1: "p1 = p\<lparr>task_queue := (task_queue p)\<lparr>q_queue := q_queue (task_queue p) @ [Packaged (length (futures p)) f]\<rparr>,
        futures := futures p @ [Pending]\<rparr>" and b: "b = length (futures p)"
    using sub by (auto simp: submit_open)
  have open2: "\<not> q_shutdown (task_queue ?p2)" if "Shutdown_queue \<notin> set es"
    using \<open>\<not> q_shutdown (task_queue p)\<close> that by (simp add: run_events_frame p1)
  have tr: "task_tracked ?p2 b f"
    using inv1 task_tracked_submit [OF inv sub] by (rule task_tracked_run_events)
  have rc: "run_callable f =
      (case f of Return_value v \<Rightarrow> Ready_value v | Return_void \<Rightarrow> Ready_void
       | Throw e \<Rightarrow> Ready_exception e)"
    by (cases f) simp_all
  have "futures p1 ! b = Pending"
    by (simp add: p1 b)
  moreover have "Packaged b f \<in># pending_tasks ?p2 \<longrightarrow> futures ?p2 ! b = Pending"
    using tr by (simp add: task_tracked_def)
  moreover have "Packaged b f \<notin># pending_tasks ?p2 \<longrightarrow> futures ?p2 ! b = run_callable f"
    using tr by (simp add: task_tracked_def)
  moreover have "\<not> list_ex is_terminated (workers ?p2)"
    using inv2 by (simp add: pool_inv_iff)
  moreover have "\<not> list_ex has_exited (workers ?p2)" if "Shutdown_queue \<notin> set es"
    using inv2 open2 [OF that] by (auto simp: pool_inv_iff)
  moreover have "length (workers ?p2) = length (workers p)"
    by (simp add: run_events_frame p1)
  moreover have "fst (submit g ?p2) = Returns (length (futures ?p2))"
    if "Shutdown_queue \<notin> set es"
    using open2 [OF that] by (simp add: submit_open)
  ultimately show ?thesis
    unfolding rc by blast
qed

theorem submitted_task_resolves_witness:
  "futures (run_events
      [Submit_call (Return_value 1), Worker_step 1, Worker_step 1, Worker_step 0, Worker_step 0]
      (snd (submit (Throw ''boom'') (new_thread_pool 2 8 :: (string, int) thread_pool)))) =
     [Ready_exception ''boom'', Ready_value 1]
   \<and> workers (run_events
      [Submit_call (Return_value 1), Worker_step 1, Worker_step 1, Worker_step 0, Worker_step 0]
      (snd (submit (Throw ''boom'') (new_thread_pool 2 8 :: (string, int) thread_pool)))) =
     [At_pop, At_pop]
   \<and> fst (submit (Return_value 42) (run_events
      [Submit_call (Return_value 1), Worker_step 1, Worker_step 1, Worker_step 0, Worker_step 0]
      (snd (submit (Throw ''boom'') (new_thread_pool 2 8 :: (string, int) thread_pool))))) =
     Returns 2"
  using submitted_task_resolves [of "new_thread_pool 2 8 :: (string, int) thread_pool" "Throw ''boom''" 0
      "snd (submit (Throw ''boom'') (new_thread_pool 2 8 :: (string, int) thread_pool))"
      "[Submit_call (Return_value 1), Worker_step 1, Worker_step 1, Worker_step 0, Worker_step 0]"
      "Return_value 42"]
    pool_inv_new [of 2 8, where ?'a = string and ?'b = int]
  by (simp add: new_thread_pool_2 pool_eval pending_tasks_def)

text \<open>
  C9. The destructor of a pool on which \<open>shutdown()\<close> was not called. Whenever it
  returns, every worker has left its loop, the queue is empty, no future is pending, no
  future was added, and the future of every item that was queued or running when the
  destructor was called holds what its callable returned or threw. And it does return
  once every worker has been given as many steps as there was work left.
\<close>

theorem destructor_drains_queue:
  assumes inv: "pool_inv p" and open_pool: "\<not> pool_is_shutdown p"
  shows "(\<forall>p'. destroy sched p = (Returns (), p') \<longrightarrow>
            list_all (\<lambda>s. \<not> is_pending s) (futures p')
          \<and> length (futures p') = length (futures p)
          \<and> (\<forall>b f. Packaged b f \<in># pending_tasks p \<longrightarrow> futures p' ! b = run_callable f)
          \<and> q_queue (task_queue p') = []
          \<and> list_all has_exited (workers p'))
       \<and> ((\<forall>i < length (workers p). work_left p \<le> count_list sched i) \<longrightarrow>
            fst (destroy sched p) = Returns ())"
proof -
  let ?p2 = "p\<lparr>p_shutdown := True, task_queue := snd (shutdown (task_queue p))\<rparr>"
  let ?p3 = "run sched ?p2"
  have np: "\<not> p_shutdown p"
    using open_pool by (simp add: pool_is_shutdown_def)
  have inv2: "pool_inv ?p2"
    using inv by (rule pool_inv_close)
  then have inv3: "pool_inv ?p3"
    by (rule pool_inv_run)
  have closed2: "q_shutdown (task_queue ?p2)"
    by (simp add: shutdown_def)
  have same: "pending_tasks ?p2 = pending_tasks p" "work_left ?p2 = work_left p"
    "workers ?p2 = workers p" "futures ?p2 = futures p"
    by (simp_all add: pending_tasks_def work_left_def shutdown_def)
  have part1: "list_all (\<lambda>s. \<not> is_pending s) (futures p')
          \<and> length (futures p') = length (futures p)
          \<and> (\<forall>b f. Packaged b f \<in># pending_tasks p \<longrightarrow> futures p' ! b = run_callable f)
          \<and> q_queue (task_queue p') = []
          \<and> list_all has_exited (workers p')"
    if ret: "destroy sched p = (Returns (), p')" for p'
  proof -
    have ex: "list_all has_exited (workers ?p3)"
      and p': "p' = ?p3\<lparr>task_queue := snd (shutdown (task_queue ?p3))\<rparr>"
      using ret unfolding destroy_unfold [OF np] by (auto split: if_splits)
    have none: "pending_tasks ?p3 = {#}"
      using inv3 ex by (rule all_exited_nothing_owed)
    have "list_all (\<lambda>s. \<not> is_pending s) (futures ?p3)"
      using inv3 none by (rule nothing_owed_all_ready)
    moreover have "length (futures ?p3) = length (futures p)"
      by (simp add: run_futures_length)
    moreover have "futures ?p3 ! b = run_callable f" if "Packaged b f \<in># pending_tasks p" for b f
    proof -
      have "task_tracked ?p2 b f"
        using inv2 that same(1) by (intro task_tracked_owed) simp_all
      then have "task_tracked ?p3 b f"
        using inv2 by (intro task_tracked_run)
      then show ?thesis
        by (simp add: task_tracked_def none)
    qed
    moreover have "q_queue (task_queue ?p3) = []"
      using none by (simp add: pending_tasks_def)
    ultimately show ?thesis
      using ex by (simp add: p' shutdown_def)
  qed
  have part2: "fst (destroy sched p) = Returns ()"
    if fair: "\<forall>i < length (workers p). work_left p \<le> count_list sched i"
  proof -
    have "list_all has_exited (workers ?p3)"
      using inv2 closed2 fair by (intro fair_run_exits) (simp_all add: same)
    then show ?thesis
      unfolding destroy_unfold [OF np] by simp
  qed
  from part1 part2 show ?thesis by blast
qed

theorem destructor_drains_queue_witness:
  "fst (destroy [0, 1, 0, 1, 0, 1, 0, 1]
     (snd (submit (Return_value 7) (new_thread_pool 2 8 :: (string, int) thread_pool)))) = Returns ()
   \<and> futures (snd (destroy [0, 1, 0, 1, 0, 1, 0, 1]
     (snd (submit (Return_value 7) (new_thread_pool 2 8 :: (string, int) thread_pool))))) ! 0 =
     Ready_value 7"
proof -
  let ?P = "snd (submit (Return_value 7) (new_thread_pool 2 8 :: (string, int) thread_pool))"
  let ?sched = "[0, 1, 0, 1, 0, 1, 0, 1] :: nat list"
  have P: "?P = \<lparr>task_queue = \<lparr>q_queue = [Packaged 0 (Return_value 7)], q_shutdown = False\<rparr>,
      workers = [At_pop, At_pop], p_shutdown = False, futures = [Pending]\<rparr>"
    by (simp add: new_thread_pool_2 pool_eval)
  have inv: "pool_inv ?P"
    by (rule pool_inv_submit [OF pool_inv_new])
  have open_pool: "\<not> pool_is_shutdown ?P"
    by (simp add: P pool_is_shutdown_def)
  have fair: "\<forall>i < length (workers ?P). work_left ?P \<le> count_list ?sched i"
    unfolding P by (simp add: work_left_def less_Suc_eq)
  have owed: "Packaged 0 (Return_value 7) \<in># pending_tasks ?P"
    unfolding P by (simp add: pending_tasks_def)
  note main = destructor_drains_queue [OF inv open_pool, of ?sched]
  from main fair have ret: "fst (destroy ?sched ?P) = Returns ()"
    by blast
  then have "destroy ?sched ?P = (Returns (), snd (destroy ?sched ?P))"
    by (metis prod.collapse)
  with main owed have "futures (snd (destroy ?sched ?P)) ! 0 = run_callable (Return_value 7)"
    by blast
  with ret show ?thesis by simp
qed

end
